theory Spec2Isabelle
  imports Main "HOL-Library.Word"
begin

unbundle bit_operations_syntax

section \<open>Data model of \<^verbatim>\<open>main.c\<close>\<close>

text \<open>
  Machine types of the program on an LP64 platform: \<^verbatim>\<open>int\<close> has 32 bits (read as
  two's complement with \<open>sint\<close>), \<^verbatim>\<open>unsigned long\<close> has 64 bits, a character of a key
  is read through \<^verbatim>\<open>unsigned char *\<close> and is a byte.
\<close>

type_synonym byte = "8 word"
type_synonym c_int = "32 word"
type_synonym c_ulong = "64 word"

text \<open>
  A key is a \<^verbatim>\<open>char *\<close>. The program never inspects a key's characters when it
  compares keys: \<^verbatim>\<open>bucket->key != ""\<close> and \<^verbatim>\<open>bucket->key == key\<close> compare addresses.
  A pointer is therefore either the address of the string literal \<^verbatim>\<open>""\<close> (one
  object for the whole translation unit, which is what the program relies on) or the
  address of some other character buffer. The characters are kept in a separate string
  memory that only \<^verbatim>\<open>hash\<close> reads.
\<close>

datatype keyptr = EmptyLiteral | Buf nat

type_synonym strmem = "keyptr \<Rightarrow> byte list"

text \<open>
  \<^verbatim>\<open>struct Bucket { struct Bucket *chainedBucket; char *key; int value; }\<close>.
  Every node is reached through exactly one pointer (the table slot or the
  \<^verbatim>\<open>chainedBucket\<close> field of its predecessor), so a chain is a value of a recursive
  datatype. \<open>Marker\<close> is a node as \<^verbatim>\<open>malloc\<close> followed by \<^verbatim>\<open>key = ""\<close> leaves it: its key
  is the empty literal, its other two fields have never been assigned. \<open>Bucket\<close> is a
  node whose three fields have been assigned; its key may still be the empty literal.
\<close>

datatype Bucket =
    Marker
  | Bucket (chainedBucket: Bucket) (key: keyptr) (val: c_int)
where
  "key Marker = EmptyLiteral"

text \<open>
  \<^verbatim>\<open>struct HashTable { int numBuckets; struct Bucket *buckets[]; }\<close>. The flexible array
  member is the list of the slots that were allocated and initialised.
\<close>

record HashTable =
  numBuckets :: c_int
  buckets :: "Bucket list"

text \<open>
  What C leaves undefined and the program can run into: the remainder by a zero bucket
  count, and a slot index outside the allocated array.
\<close>

datatype fault = DivideByZero | OutOfBounds

section \<open>The functions\<close>

text \<open>
  \<^verbatim>\<open>constructHashTable\<close>: stores the count, then the loop \<^verbatim>\<open>for (i = 0; i < numBuckets; i++)\<close>
  allocates one node per slot and sets its key to \<^verbatim>\<open>""\<close>. For a count that is not
  positive the loop body never runs. There is no test of the argument.
\<close>

definition constructHashTable :: "c_int \<Rightarrow> HashTable" where
  "constructHashTable n = \<lparr>numBuckets = n, buckets = replicate (nat (sint n)) Marker\<rparr>"

text \<open>
  \<^verbatim>\<open>hash\<close>: the loop \<^verbatim>\<open>while (c = *str++)\<close> stops at the first zero byte. The argument
  lists the bytes stored from the pointer on; the end of the list stands for the
  terminator of the buffer.
\<close>

fun hashLoop :: "c_ulong \<Rightarrow> byte list \<Rightarrow> c_ulong" where
  "hashLoop h [] = h"
| "hashLoop h (c # str) =
     (if c \<noteq> 0 then hashLoop ((push_bit 5 h + h) + ucast c) str else h)"

definition hash :: "byte list \<Rightarrow> c_ulong" where
  "hash str = hashLoop 5381 str"

text \<open>
  \<^verbatim>\<open>chainValue\<close>: recurses while the node is occupied; at the first node whose key is
  \<^verbatim>\<open>""\<close> it allocates a new marker as successor and stores value and key. It never
  compares the key with the keys in the chain.
\<close>

fun chainValue :: "Bucket \<Rightarrow> keyptr \<Rightarrow> c_int \<Rightarrow> Bucket" where
  "chainValue Marker k v = Bucket Marker k v"
| "chainValue (Bucket nxt k' v') k v =
     (if k' \<noteq> EmptyLiteral then Bucket (chainValue nxt k v) k' v'
      else Bucket Marker k v)"

text \<open>
  \<^verbatim>\<open>searchBucket\<close>: the result is the node found (\<open>Some\<close>) or the null pointer (\<open>None\<close>).
\<close>

fun searchBucket :: "Bucket \<Rightarrow> keyptr \<Rightarrow> Bucket option" where
  "searchBucket Marker k = None"
| "searchBucket (Bucket nxt k' v') k =
     (if k' \<noteq> EmptyLiteral
      then (if k' = k then Some (Bucket nxt k' v') else searchBucket nxt k)
      else None)"

text \<open>
  \<^verbatim>\<open>reformChainExcluding\<close>: the second component counts the calls of \<^verbatim>\<open>free\<close>.
\<close>

fun reformChainExcluding :: "Bucket \<Rightarrow> keyptr \<Rightarrow> Bucket \<times> nat" where
  "reformChainExcluding Marker k = (Marker, 0)"
| "reformChainExcluding (Bucket nxt k' v') k =
     (if k' \<noteq> EmptyLiteral
      then (if k' = k then (nxt, 1)
            else (case reformChainExcluding nxt k of
                    (chain, freed) \<Rightarrow> (Bucket chain k' v', freed)))
      else (Bucket nxt k' v', 0))"

text \<open>
  The three table operations. Each computes
  \<^verbatim>\<open>int boundedHash = hash(key) % table->numBuckets\<close> for itself: the count is converted
  to \<^verbatim>\<open>unsigned long\<close> (sign extension), the remainder is unsigned, and the result is
  converted back to \<^verbatim>\<open>int\<close> (truncation).
\<close>

definition addToTable :: "strmem \<Rightarrow> HashTable \<Rightarrow> keyptr \<Rightarrow> c_int \<Rightarrow> fault + HashTable" where
  "addToTable mem table k v =
     (if numBuckets table = 0 then Inl DivideByZero
      else
        let boundedHash = (ucast (hash (mem k) mod scast (numBuckets table)) :: c_int) in
        if 0 \<le> sint boundedHash \<and> nat (sint boundedHash) < length (buckets table)
        then Inr (table\<lparr>buckets := (buckets table)
                    [nat (sint boundedHash) :=
                       chainValue (buckets table ! nat (sint boundedHash)) k v]\<rparr>)
        else Inl OutOfBounds)"

definition searchTable :: "strmem \<Rightarrow> HashTable \<Rightarrow> keyptr \<Rightarrow> fault + Bucket option" where
  "searchTable mem table k =
     (if numBuckets table = 0 then Inl DivideByZero
      else
        let boundedHash = (ucast (hash (mem k) mod scast (numBuckets table)) :: c_int) in
        if 0 \<le> sint boundedHash \<and> nat (sint boundedHash) < length (buckets table)
        then Inr (searchBucket (buckets table ! nat (sint boundedHash)) k)
        else Inl OutOfBounds)"

definition removeFromTable :: "strmem \<Rightarrow> HashTable \<Rightarrow> keyptr \<Rightarrow> fault + HashTable" where
  "removeFromTable mem table k =
     (if numBuckets table = 0 then Inl DivideByZero
      else
        let boundedHash = (ucast (hash (mem k) mod scast (numBuckets table)) :: c_int) in
        if 0 \<le> sint boundedHash \<and> nat (sint boundedHash) < length (buckets table)
        then Inr (table\<lparr>buckets := (buckets table)
                    [nat (sint boundedHash) :=
                       fst (reformChainExcluding (buckets table ! nat (sint boundedHash)) k)]\<rparr>)
        else Inl OutOfBounds)"

text \<open>
  Printing. The output is the sequence of \<^verbatim>\<open>printf\<close> calls with their arguments:
  \<^verbatim>\<open>printf("\n[%d] ", i)\<close>, \<^verbatim>\<open>printf("%s:%d ", key, value)\<close> and the final
  \<^verbatim>\<open>printf("\n")\<close>. \<^verbatim>\<open>printBucket\<close> calls itself on the successor before it prints
  its own node.
\<close>

datatype printed = PrintIndex nat | PrintPair keyptr c_int | PrintNewline

fun printBucket :: "Bucket \<Rightarrow> printed list" where
  "printBucket Marker = []"
| "printBucket (Bucket nxt k' v') =
     (if k' \<noteq> EmptyLiteral then printBucket nxt @ [PrintPair k' v'] else [])"

definition printTable :: "HashTable \<Rightarrow> fault + printed list" where
  "printTable table =
     (if nat (sint (numBuckets table)) \<le> length (buckets table)
      then Inr (concat (map (\<lambda>i. PrintIndex i # printBucket (buckets table ! i))
                            [0 ..< nat (sint (numBuckets table))]) @ [PrintNewline])
      else Inl OutOfBounds)"

section \<open>Vocabulary of the properties\<close>

text \<open>The C string at a pointer: the bytes before the first zero byte.\<close>

definition cstring :: "strmem \<Rightarrow> keyptr \<Rightarrow> byte list" where
  "cstring mem p = takeWhile (\<lambda>c. c \<noteq> 0) (mem p)"

text \<open>The occupied entries of a chain, in chain order, as every walk of the program sees them.\<close>

fun entries :: "Bucket \<Rightarrow> (keyptr \<times> c_int) list" where
  "entries Marker = []"
| "entries (Bucket nxt k' v') =
     (if k' \<noteq> EmptyLiteral then (k', v') # entries nxt else [])"

text \<open>
  A chain in the shape the data model describes: occupied nodes, then one node that was
  only ever initialised as a marker, and nothing behind it.
\<close>

fun chainOk :: "Bucket \<Rightarrow> bool" where
  "chainOk Marker = True"
| "chainOk (Bucket nxt k' v') = (k' \<noteq> EmptyLiteral \<and> chainOk nxt)"

text \<open>
  A table as \<^verbatim>\<open>constructHashTable\<close> allocates it for a positive count: as many slots as
  \<open>numBuckets\<close> says.
\<close>

definition tableOk :: "HashTable \<Rightarrow> bool" where
  "tableOk table \<longleftrightarrow>
     0 < sint (numBuckets table) \<and> length (buckets table) = nat (sint (numBuckets table))"

text \<open>The index the specification names: \<open>hash(key) mod numBuckets\<close>, on natural numbers.\<close>

definition bucketIndex :: "strmem \<Rightarrow> HashTable \<Rightarrow> keyptr \<Rightarrow> nat" where
  "bucketIndex mem table k = unat (hash (mem k)) mod nat (sint (numBuckets table))"

text \<open>The key pointers stored in the occupied entries of a table.\<close>

definition tableKeys :: "HashTable \<Rightarrow> keyptr set" where
  "tableKeys table = (\<Union>b \<in> set (buckets table). fst ` set (entries b))"

text \<open>A caller's sequence of \<^verbatim>\<open>addToTable\<close> calls; it stops at the first fault.\<close>

fun addAll :: "strmem \<Rightarrow> HashTable \<Rightarrow> (keyptr \<times> c_int) list \<Rightarrow> fault + HashTable" where
  "addAll mem table [] = Inr table"
| "addAll mem table ((k, v) # kvs) =
     (case addToTable mem table k v of
        Inl e \<Rightarrow> Inl e
      | Inr table' \<Rightarrow> addAll mem table' kvs)"

text \<open>
  A string memory for the examples: the buffers 1 and 3 both hold \<^verbatim>\<open>"a"\<close>, buffer 2
  holds \<^verbatim>\<open>"b"\<close>, every other object holds the empty string.
\<close>

definition exampleMem :: strmem where
  "exampleMem p =
     (case p of
        EmptyLiteral \<Rightarrow> [0]
      | Buf a \<Rightarrow> (if a = 1 \<or> a = 3 then [97, 0] else if a = 2 then [98, 0] else [0]))"

text \<open>The nodes a chain is made of, the final marker included.\<close>

fun nodes :: "Bucket \<Rightarrow> nat" where
  "nodes Marker = 1"
| "nodes (Bucket nxt k' v') = Suc (nodes nxt)"

text \<open>
  Example tables with three slots. In \<open>exampleMem\<close> the strings \<^verbatim>\<open>"a"\<close> and \<^verbatim>\<open>"b"\<close> hash
  to the slots 1 and 2.
\<close>

definition oneKey :: HashTable where
  "oneKey = \<lparr>numBuckets = 3, buckets = [Marker, Bucket Marker (Buf 1) 5, Marker]\<rparr>"

definition sameKeyTwice :: HashTable where
  "sameKeyTwice =
     \<lparr>numBuckets = 3,
      buckets = [Marker, Bucket (Bucket Marker (Buf 1) 7) (Buf 1) 5, Marker]\<rparr>"

definition secondLeft :: HashTable where
  "secondLeft = \<lparr>numBuckets = 3, buckets = [Marker, Bucket Marker (Buf 1) 7, Marker]\<rparr>"

definition twoInOneChain :: HashTable where
  "twoInOneChain =
     \<lparr>numBuckets = 3,
      buckets = [Marker, Bucket (Bucket Marker (Buf 3) 8) (Buf 1) 5, Marker]\<rparr>"

section \<open>The hash function\<close>

lemma shift_add_is_times_33: "push_bit 5 h + h = h * (33::c_ulong)"
  by (simp add: push_bit_eq_mult)

lemma hashLoop_foldl:
  "hashLoop h bs = foldl (\<lambda>acc c. acc * 33 + ucast c) h (takeWhile (\<lambda>c. c \<noteq> 0) bs)"
  by (induction bs arbitrary: h) (simp_all add: shift_add_is_times_33)

lemma hash_snoc:
  assumes "0 \<notin> set bs" and "c \<noteq> 0"
  shows "hash (bs @ [c]) = hash bs * 33 + ucast c"
proof -
  have whole: "takeWhile (\<lambda>c. c \<noteq> 0) bs = bs"
    using assms by auto
  have whole': "takeWhile (\<lambda>c. c \<noteq> 0) (bs @ [c]) = bs @ [c]"
    using assms by auto
  show ?thesis
    by (simp only: hash_def hashLoop_foldl whole whole' foldl_append foldl.simps)
qed

lemma unat_ucast_byte: "unat (ucast (c::byte) :: c_ulong) = unat c"
proof -
  have "unat c < 2 ^ 8" using unsigned_less [of c] by simp
  then have "unat c < 2 ^ 64" by simp
  then have "take_bit 64 (unat c) = unat c" by (rule take_bit_nat_eq_self)
  moreover have "unat (ucast c :: c_ulong) = take_bit 64 (unat c)"
    by (simp add: unsigned_ucast_eq)
  ultimately show ?thesis by simp
qed

lemma unat_hash_step:
  "unat (h * 33 + ucast c :: c_ulong) = (unat h * 33 + unat (c::byte)) mod 2 ^ 64"
  by (simp add: unat_word_ariths mod_simps unat_ucast_byte)

text \<open>
  C7. The hash of the empty string is the seed 5381. For every buffer the result is the
  fold of \<open>acc * 33 + c\<close> over the bytes before the terminator, in order, from 5381, in
  64-bit unsigned arithmetic; so two buffers that hold the same string have the same
  hash, whatever lies behind the terminator. Read as natural numbers, one more byte takes
  the hash \<open>h\<close> to \<open>(h * 33 + c) mod 2 ^ 64\<close>.
\<close>

theorem hash_djb2:
  "hash [] = 5381
   \<and> hash bs = foldl (\<lambda>acc c. acc * 33 + ucast c) 5381 (takeWhile (\<lambda>c. c \<noteq> 0) bs)
   \<and> (takeWhile (\<lambda>c. c \<noteq> 0) bs = takeWhile (\<lambda>c. c \<noteq> 0) bs' \<longrightarrow> hash bs = hash bs')
   \<and> (0 \<notin> set bs \<and> c \<noteq> 0 \<longrightarrow>
        unat (hash (bs @ [c])) = (unat (hash bs) * 33 + unat c) mod 2 ^ 64)"
proof (intro conjI impI)
  show "hash [] = 5381"
    by (simp add: hash_def)
  show "hash bs = foldl (\<lambda>acc c. acc * 33 + ucast c) 5381 (takeWhile (\<lambda>c. c \<noteq> 0) bs)"
    by (simp only: hash_def hashLoop_foldl)
  show "hash bs = hash bs'"
    if "takeWhile (\<lambda>c. c \<noteq> 0) bs = takeWhile (\<lambda>c. c \<noteq> 0) bs'"
    using that by (simp only: hash_def hashLoop_foldl)
  show "unat (hash (bs @ [c])) = (unat (hash bs) * 33 + unat c) mod 2 ^ 64"
    if "0 \<notin> set bs \<and> c \<noteq> 0"
  proof -
    from that have "hash (bs @ [c]) = hash bs * 33 + ucast c"
      by (intro hash_snoc) simp_all
    then show ?thesis
      by (simp only: unat_hash_step)
  qed
qed

theorem hash_djb2_witness:
  "hash [97, 98, 0, 7] = hash [97, 98]
   \<and> hash [97, 98] = (5381 * 33 + 97) * 33 + 98
   \<and> unat (hash ([97] @ [98])) = (unat (hash [97]) * 33 + unat (98 :: byte)) mod 2 ^ 64"
  using hash_djb2 [of "[97, 98, 0, 7]" "[97, 98]" 1]
        hash_djb2 [of "[97]" "[]" 98]
  by (simp add: hash_def)

section \<open>The bucket index\<close>

lemma unat_scast_pos:
  fixes n :: c_int
  assumes "0 < sint n"
  shows "unat (scast n :: c_ulong) = nat (sint n)"
proof -
  have "sint n < 2 ^ 31" using sint_lt [of n] by simp
  then have "sint n < 2 ^ 64" by simp
  with assms have fits: "take_bit 64 (sint n) = sint n"
    by (simp add: take_bit_int_eq_self)
  have "uint (scast n :: c_ulong) = uint (word_of_int (sint n) :: c_ulong)"
    by (simp only: scast_eq)
  also have "\<dots> = take_bit 64 (sint n)"
    by (simp only: uint_word_of_int_eq) simp
  finally have "uint (scast n :: c_ulong) = sint n" using fits by simp
  then show ?thesis
    by (simp only: unat_eq_nat_uint)
qed

lemma sint_ucast_small:
  fixes x :: c_ulong
  assumes "unat x < 2 ^ 31"
  shows "sint (ucast x :: c_int) = int (unat x)"
proof -
  have "\<And>m::nat. m < 2 ^ 31 \<Longrightarrow> int m < 2 ^ 31" by simp
  from this [OF assms] have "int (unat x) < 2 ^ 31" .
  then have lt: "uint x < 2 ^ 31" by simp
  have "(0::int) \<le> uint x" by simp
  moreover have "\<And>i::int. 0 \<le> i \<Longrightarrow> - (2 ^ 31) \<le> i" by simp
  ultimately have ge: "- (2 ^ 31) \<le> uint x" by blast
  have "signed_take_bit 31 (uint x) = uint x"
    using ge lt by (rule signed_take_bit_int_eq_self)
  moreover have "sint (ucast x :: c_int) = signed_take_bit 31 (uint x)"
    by (simp add: signed_ucast_eq)
  ultimately show ?thesis
    by (simp only: uint_nat)
qed

lemma boundedHash_value:
  fixes h :: c_ulong and n :: c_int
  assumes "0 < sint n"
  shows "sint (ucast (h mod scast n) :: c_int) = int (unat h mod nat (sint n))"
proof -
  have n31: "sint n < 2 ^ 31" using sint_lt [of n] by simp
  have eq: "unat (h mod scast n) = unat h mod nat (sint n)"
    by (simp only: unat_mod unat_scast_pos [OF assms])
  moreover have "unat h mod nat (sint n) < nat (sint n)"
    using assms by simp
  moreover have "nat (sint n) < 2 ^ 31" using n31 assms by (simp add: nat_less_iff)
  ultimately have "unat (h mod scast n) < 2 ^ 31" by linarith
  then have "sint (ucast (h mod scast n) :: c_int) = int (unat (h mod scast n))"
    by (rule sint_ucast_small)
  then show ?thesis
    by (simp only: eq)
qed

lemma tableOk_boundedHash:
  assumes "tableOk table"
  shows "sint (ucast (hash (mem k) mod scast (numBuckets table)) :: c_int)
           = int (bucketIndex mem table k)"
  using assms by (simp only: tableOk_def bucketIndex_def boundedHash_value)

lemma tableOk_nonzero: "tableOk table \<Longrightarrow> numBuckets table \<noteq> 0"
  by (auto simp: tableOk_def)

lemma bucketIndex_less: "tableOk table \<Longrightarrow> bucketIndex mem table k < length (buckets table)"
  by (simp add: tableOk_def bucketIndex_def)

lemma addToTable_tableOk:
  assumes "tableOk table"
  shows "addToTable mem table k v =
           Inr (table\<lparr>buckets := (buckets table)
                  [bucketIndex mem table k :=
                     chainValue (buckets table ! bucketIndex mem table k) k v]\<rparr>)"
  using bucketIndex_less [OF assms, of mem k]
  by (simp add: addToTable_def Let_def tableOk_nonzero [OF assms]
        tableOk_boundedHash [OF assms])

lemma searchTable_tableOk:
  assumes "tableOk table"
  shows "searchTable mem table k =
           Inr (searchBucket (buckets table ! bucketIndex mem table k) k)"
  using bucketIndex_less [OF assms, of mem k]
  by (simp add: searchTable_def Let_def tableOk_nonzero [OF assms]
        tableOk_boundedHash [OF assms])

lemma removeFromTable_tableOk:
  assumes "tableOk table"
  shows "removeFromTable mem table k =
           Inr (table\<lparr>buckets := (buckets table)
                  [bucketIndex mem table k :=
                     fst (reformChainExcluding (buckets table ! bucketIndex mem table k) k)]\<rparr>)"
  using bucketIndex_less [OF assms, of mem k]
  by (simp add: removeFromTable_def Let_def tableOk_nonzero [OF assms]
        tableOk_boundedHash [OF assms])

lemma tableOk_update: "tableOk table \<Longrightarrow> tableOk (table\<lparr>buckets := (buckets table)[i := b]\<rparr>)"
  by (simp add: tableOk_def)

lemma bucketIndex_update:
  "bucketIndex mem (table\<lparr>buckets := bs\<rparr>) k = bucketIndex mem table k"
  by (simp add: bucketIndex_def)

lemma tableOk_construct: "0 < sint n \<Longrightarrow> tableOk (constructHashTable n)"
  by (simp add: tableOk_def constructHashTable_def)

section \<open>Chains\<close>

lemma entries_chainValue:
  "entries (chainValue b k v) = entries b @ (if k = EmptyLiteral then [] else [(k, v)])"
  by (induction b) auto

lemma entries_keys: "EmptyLiteral \<notin> fst ` set (entries b)"
  by (induction b) auto

lemma searchBucket_entries: "map_option val (searchBucket b k) = map_of (entries b) k"
  by (induction b) auto

lemma searchBucket_Some_key:
  "searchBucket b k = Some n \<Longrightarrow> key n = k \<and> k \<noteq> EmptyLiteral"
  by (induction b) (auto split: if_splits)

lemma reform_absent: "k \<notin> fst ` set (entries b) \<Longrightarrow> reformChainExcluding b k = (b, 0)"
  by (induction b) (force split: if_splits)+

lemma entries_reform:
  "entries (fst (reformChainExcluding b k)) =
     (case map_of (entries b) k of
        None \<Rightarrow> entries b
      | Some v \<Rightarrow> remove1 (k, v) (entries b))"
  by (induction b) (auto split: prod.splits option.splits)

lemma freed_reform:
  "snd (reformChainExcluding b k) = (if k \<in> fst ` set (entries b) then 1 else 0)"
  by (induction b) (force split: prod.splits if_splits)+

lemma reform_once:
  "length (filter (\<lambda>e. fst e = k) (entries b)) \<le> 1 \<Longrightarrow>
     k \<notin> fst ` set (entries (fst (reformChainExcluding b k)))"
  by (induction b) (auto split: prod.splits if_splits simp: filter_empty_conv)

lemma chainOk_chainValue: "chainOk b \<Longrightarrow> k \<noteq> EmptyLiteral \<Longrightarrow> chainOk (chainValue b k v)"
  by (induction b) auto

lemma chainOk_reform: "chainOk b \<Longrightarrow> chainOk (fst (reformChainExcluding b k))"
  by (induction b) (auto split: prod.splits)

lemma chainOk_marker_reached:
  "chainOk b \<Longrightarrow> (chainedBucket ^^ length (entries b)) b = Marker"
  by (induction b) (auto simp: funpow_swap1)

lemma printBucket_entries:
  "printBucket b = map (\<lambda>(k, v). PrintPair k v) (rev (entries b))"
  by (induction b) auto

lemma map_of_filter_key:
  "map_of (filter (\<lambda>(k', v). P k') kvs) k = (if P k then map_of kvs k else None)"
  by (induction kvs) auto

section \<open>Sequences of insertions\<close>

lemma addAll_entries:
  assumes "tableOk table"
  shows "\<exists>table'. addAll mem table kvs = Inr table' \<and> tableOk table'
           \<and> numBuckets table' = numBuckets table
           \<and> (\<forall>i < length (buckets table).
                 entries (buckets table' ! i) =
                   entries (buckets table ! i)
                   @ filter (\<lambda>(k, v). k \<noteq> EmptyLiteral \<and> bucketIndex mem table k = i) kvs)"
  using assms
proof (induction kvs arbitrary: table)
  case Nil
  then show ?case by simp
next
  case (Cons kv kvs)
  obtain k v where kv: "kv = (k, v)" by (cases kv)
  let ?i = "bucketIndex mem table k"
  let ?t = "table\<lparr>buckets := (buckets table)[?i := chainValue (buckets table ! ?i) k v]\<rparr>"
  have step: "addToTable mem table k v = Inr ?t"
    by (rule addToTable_tableOk [OF Cons.prems])
  have ok: "tableOk ?t"
    by (rule tableOk_update [OF Cons.prems])
  from Cons.IH [OF ok] obtain table' where
    run: "addAll mem ?t kvs = Inr table'" and ok': "tableOk table'"
    and nb: "numBuckets table' = numBuckets ?t"
    and ent: "\<forall>i < length (buckets ?t).
                 entries (buckets table' ! i) =
                   entries (buckets ?t ! i)
                   @ filter (\<lambda>(k, v). k \<noteq> EmptyLiteral \<and> bucketIndex mem ?t k = i) kvs"
    by blast
  have idx: "\<And>k'. bucketIndex mem ?t k' = bucketIndex mem table k'"
    by (simp add: bucketIndex_def)
  have "entries (buckets table' ! i) =
          entries (buckets table ! i)
          @ filter (\<lambda>(k, v). k \<noteq> EmptyLiteral \<and> bucketIndex mem table k = i) (kv # kvs)"
    if "i < length (buckets table)" for i
  proof -
    from that ent have e: "entries (buckets table' ! i) =
        entries (buckets ?t ! i)
        @ filter (\<lambda>(k, v). k \<noteq> EmptyLiteral \<and> bucketIndex mem table k = i) kvs"
      by (simp add: idx)
    show ?thesis
    proof (cases "i = ?i")
      case True
      with that e show ?thesis
        by (simp add: kv entries_chainValue)
    next
      case False
      with that e show ?thesis
        by (auto simp add: kv)
    qed
  qed
  with run ok' nb step show ?case
    by (simp add: kv)
qed

section \<open>Index resolution and frame of the table operations\<close>

text \<open>
  C8. On a table with a positive bucket count and as many slots, the three operations
  \<^verbatim>\<open>addToTable\<close>, \<^verbatim>\<open>searchTable\<close> and \<^verbatim>\<open>removeFromTable\<close> all work on the chain at
  index \<open>hash(key) mod numBuckets\<close>, which lies inside the array; and since no insertion
  or removal changes the bucket count, the index of a key stays the same during the
  table's lifetime.
\<close>

theorem bucket_index_shared:
  assumes "tableOk table"
  shows "bucketIndex mem table k < length (buckets table)
     \<and> addToTable mem table k v =
         Inr (table\<lparr>buckets := (buckets table)
                [bucketIndex mem table k :=
                   chainValue (buckets table ! bucketIndex mem table k) k v]\<rparr>)
     \<and> searchTable mem table k =
         Inr (searchBucket (buckets table ! bucketIndex mem table k) k)
     \<and> removeFromTable mem table k =
         Inr (table\<lparr>buckets := (buckets table)
                [bucketIndex mem table k :=
                   fst (reformChainExcluding (buckets table ! bucketIndex mem table k) k)]\<rparr>)
     \<and> (\<forall>k' v' table'.
           addToTable mem table k' v' = Inr table' \<or> removeFromTable mem table k' = Inr table'
           \<longrightarrow> tableOk table' \<and> bucketIndex mem table' k = bucketIndex mem table k)"
proof (intro conjI allI impI)
  show "bucketIndex mem table k < length (buckets table)"
    by (rule bucketIndex_less [OF assms])
  show "addToTable mem table k v =
         Inr (table\<lparr>buckets := (buckets table)
                [bucketIndex mem table k :=
                   chainValue (buckets table ! bucketIndex mem table k) k v]\<rparr>)"
    by (rule addToTable_tableOk [OF assms])
  show "searchTable mem table k =
         Inr (searchBucket (buckets table ! bucketIndex mem table k) k)"
    by (rule searchTable_tableOk [OF assms])
  show "removeFromTable mem table k =
         Inr (table\<lparr>buckets := (buckets table)
                [bucketIndex mem table k :=
                   fst (reformChainExcluding (buckets table ! bucketIndex mem table k) k)]\<rparr>)"
    by (rule removeFromTable_tableOk [OF assms])
next
  fix k' v' table'
  assume "addToTable mem table k' v' = Inr table' \<or> removeFromTable mem table k' = Inr table'"
  then obtain b where "table' = table\<lparr>buckets := (buckets table)[bucketIndex mem table k' := b]\<rparr>"
    by (auto simp: addToTable_tableOk [OF assms] removeFromTable_tableOk [OF assms])
  then show "tableOk table'" and "bucketIndex mem table' k = bucketIndex mem table k"
    by (simp_all add: tableOk_update [OF assms] bucketIndex_update)
qed

theorem bucket_index_shared_witness:
  "tableOk (constructHashTable 3)
   \<and> bucketIndex exampleMem (constructHashTable 3) (Buf 1) = 1
   \<and> addToTable exampleMem (constructHashTable 3) (Buf 1) 5 = Inr oneKey
   \<and> searchTable exampleMem (constructHashTable 3) (Buf 1) = Inr None
   \<and> removeFromTable exampleMem (constructHashTable 3) (Buf 1) = Inr (constructHashTable 3)"
proof -
  have ok: "tableOk (constructHashTable 3)"
    by (simp add: tableOk_def constructHashTable_def)
  have i: "bucketIndex exampleMem (constructHashTable 3) (Buf 1) = 1"
    by (simp add: bucketIndex_def constructHashTable_def exampleMem_def hash_def)
  note shared = bucket_index_shared [OF ok, of exampleMem "Buf 1" 5]
  have "addToTable exampleMem (constructHashTable 3) (Buf 1) 5 = Inr oneKey"
    by (simp only: shared [THEN conjunct2, THEN conjunct1] i)
       (simp add: constructHashTable_def oneKey_def numeral_3_eq_3)
  moreover have "searchTable exampleMem (constructHashTable 3) (Buf 1) = Inr None"
    by (simp only: shared [THEN conjunct2, THEN conjunct2, THEN conjunct1] i)
       (simp add: constructHashTable_def numeral_3_eq_3)
  moreover have
    "removeFromTable exampleMem (constructHashTable 3) (Buf 1) = Inr (constructHashTable 3)"
    by (simp only: shared [THEN conjunct2, THEN conjunct2, THEN conjunct2, THEN conjunct1] i)
       (simp add: constructHashTable_def numeral_3_eq_3)
  ultimately show ?thesis
    using ok i by simp
qed

text \<open>
  C10. Insertion and removal of a key succeed on such a table and change at most the slot
  at index \<open>hash(key) mod numBuckets\<close>: the bucket count, the number of slots and the chain
  of every other slot are as before.
\<close>

theorem table_update_frame:
  assumes "tableOk table"
  shows "\<exists>added removed.
           addToTable mem table k v = Inr added
         \<and> removeFromTable mem table k = Inr removed
         \<and> numBuckets added = numBuckets table
         \<and> numBuckets removed = numBuckets table
         \<and> length (buckets added) = length (buckets table)
         \<and> length (buckets removed) = length (buckets table)
         \<and> (\<forall>j. j \<noteq> bucketIndex mem table k \<longrightarrow>
                buckets added ! j = buckets table ! j
              \<and> buckets removed ! j = buckets table ! j)"
  by (simp add: addToTable_tableOk [OF assms] removeFromTable_tableOk [OF assms])

theorem table_update_frame_witness:
  "tableOk oneKey
   \<and> bucketIndex exampleMem oneKey (Buf 2) = 2
   \<and> (\<exists>added. addToTable exampleMem oneKey (Buf 2) 6 = Inr added
         \<and> numBuckets added = 3
         \<and> buckets added ! 0 = Marker
         \<and> buckets added ! 1 = Bucket Marker (Buf 1) 5)"
proof -
  have ok: "tableOk oneKey"
    by (simp add: tableOk_def oneKey_def)
  have i: "bucketIndex exampleMem oneKey (Buf 2) = 2"
    by (simp add: bucketIndex_def oneKey_def exampleMem_def hash_def)
  from table_update_frame [OF ok, of exampleMem "Buf 2" 6]
  obtain added where run: "addToTable exampleMem oneKey (Buf 2) 6 = Inr added"
    and count: "numBuckets added = numBuckets oneKey"
    and rest: "\<forall>j. j \<noteq> bucketIndex exampleMem oneKey (Buf 2) \<longrightarrow>
                 buckets added ! j = buckets oneKey ! j"
    by blast
  from rest have "buckets added ! 0 = buckets oneKey ! 0"
    and "buckets added ! 1 = buckets oneKey ! 1"
    by (simp_all add: i)
  with run count have "addToTable exampleMem oneKey (Buf 2) 6 = Inr added
         \<and> numBuckets added = 3
         \<and> buckets added ! 0 = Marker
         \<and> buckets added ! 1 = Bucket Marker (Buf 1) 5"
    by (simp add: oneKey_def)
  then show ?thesis
    using ok i by blast
qed

section \<open>Insertion and lookup\<close>

text \<open>
  C1, as the specification states it, fails: \<^verbatim>\<open>chainValue\<close> never looks for the key, so
  the second insertion of a key is chained behind the first, and \<^verbatim>\<open>searchBucket\<close> stops
  at the first entry with the key. After inserting the key object 1 with value 5 and
  then with value 7, the lookup finds the node with value 5.
\<close>

theorem most_recent_upsert_not_returned:
  "addAll exampleMem (constructHashTable 3) [(Buf 1, 5), (Buf 1, 7)] = Inr sameKeyTwice
   \<and> searchTable exampleMem sameKeyTwice (Buf 1)
        = Inr (Some (Bucket (Bucket Marker (Buf 1) 7) (Buf 1) 5))
   \<and> val (Bucket (Bucket Marker (Buf 1) 7) (Buf 1) 5) \<noteq> 7"
  by (simp add: addToTable_def searchTable_def constructHashTable_def exampleMem_def hash_def
        sameKeyTwice_def numeral_3_eq_3)

text \<open>
  C1, amended. On a table constructed with a positive bucket count, after any sequence of
  insertions whose key objects hold pairwise distinct strings, the lookup of a key other
  than the empty-string literal finds the value of the first insertion of that key, and
  the lookup of a key that was never inserted returns the null pointer. (\<open>map_of\<close> yields
  the value of the first pair with the key, and \<open>None\<close> when there is none.)
\<close>

theorem lookup_after_upserts:
  assumes "0 < sint n"
    and "inj_on (cstring mem) (insert k (fst ` set kvs))"
    and "k \<noteq> EmptyLiteral"
  shows "\<exists>table' found.
           addAll mem (constructHashTable n) kvs = Inr table'
         \<and> searchTable mem table' k = Inr found
         \<and> map_option val found = map_of kvs k"
proof -
  let ?t = "constructHashTable n"
  have ok: "tableOk ?t"
    by (rule tableOk_construct [OF assms(1)])
  from addAll_entries [OF ok, of mem kvs] obtain table' where
    run: "addAll mem ?t kvs = Inr table'" and ok': "tableOk table'"
    and nb: "numBuckets table' = numBuckets ?t"
    and ent: "\<forall>i < length (buckets ?t).
                 entries (buckets table' ! i) =
                   entries (buckets ?t ! i)
                   @ filter (\<lambda>(k, v). k \<noteq> EmptyLiteral \<and> bucketIndex mem ?t k = i) kvs"
    by blast
  let ?i = "bucketIndex mem ?t k"
  have same: "bucketIndex mem table' k = ?i"
    by (simp add: bucketIndex_def nb)
  have "?i < length (buckets ?t)"
    by (rule bucketIndex_less [OF ok])
  with ent have "entries (buckets table' ! ?i) =
      entries (buckets ?t ! ?i)
      @ filter (\<lambda>(k', v). k' \<noteq> EmptyLiteral \<and> bucketIndex mem ?t k' = ?i) kvs"
    by blast
  moreover have "entries (buckets ?t ! ?i) = []"
    using \<open>?i < length (buckets ?t)\<close> by (simp add: constructHashTable_def)
  ultimately have "map_of (entries (buckets table' ! ?i)) k = map_of kvs k"
    using assms(3)
      map_of_filter_key [of "\<lambda>k'. k' \<noteq> EmptyLiteral \<and> bucketIndex mem ?t k' = ?i" kvs k]
    by simp
  then have "map_option val (searchBucket (buckets table' ! bucketIndex mem table' k) k)
               = map_of kvs k"
    by (simp only: searchBucket_entries same)
  with run searchTable_tableOk [OF ok', of mem k] show ?thesis
    by blast
qed

theorem lookup_after_upserts_witness:
  "0 < sint (3 :: c_int)
   \<and> inj_on (cstring exampleMem) (insert (Buf 1) (fst ` set [(Buf 1, 5), (Buf 2, 6), (Buf 1, 7)]))
   \<and> (\<exists>table' found.
         addAll exampleMem (constructHashTable 3) [(Buf 1, 5), (Buf 2, 6), (Buf 1, 7)] = Inr table'
       \<and> searchTable exampleMem table' (Buf 1) = Inr found
       \<and> map_option val found = Some 5)"
proof -
  have pos: "0 < sint (3 :: c_int)" by simp
  have inj: "inj_on (cstring exampleMem)
               (insert (Buf 1) (fst ` set [(Buf 1, 5 :: c_int), (Buf 2, 6), (Buf 1, 7)]))"
    by (auto simp: inj_on_def cstring_def exampleMem_def)
  have ne: "Buf 1 \<noteq> EmptyLiteral" by simp
  from lookup_after_upserts [OF pos inj ne] pos inj show ?thesis
    by simp
qed

text \<open>
  C2, as the specification states it, fails: inserting a key that is already in the chain
  does not overwrite its entry, and the chain then holds two entries with that key.
\<close>

theorem same_key_chained_twice:
  "chainValue (chainValue Marker (Buf 1) 5) (Buf 1) 7 = Bucket (Bucket Marker (Buf 1) 7) (Buf 1) 5
   \<and> entries (Bucket (Bucket Marker (Buf 1) 7) (Buf 1) 5) = [(Buf 1, 5), (Buf 1, 7)]
   \<and> \<not> distinct (map fst (entries (Bucket (Bucket Marker (Buf 1) 7) (Buf 1) 5)))"
  by simp

lemma nodes_chainValue: "chainOk b \<Longrightarrow> nodes (chainValue b k v) = Suc (nodes b)"
  by (induction b) auto

text \<open>
  C2, amended. Insertion never overwrites: for every chain, also one that already holds
  the key, \<^verbatim>\<open>chainValue\<close> with a key other than the empty-string literal keeps the entries
  as they are and appends one entry at the tail, allocating one node; a key that was
  already present is afterwards present more than once.
\<close>

theorem chainValue_always_appends:
  assumes "k \<noteq> EmptyLiteral"
  shows "entries (chainValue b k v) = entries b @ [(k, v)]
     \<and> (chainOk b \<longrightarrow> nodes (chainValue b k v) = Suc (nodes b))
     \<and> (k \<in> fst ` set (entries b) \<longrightarrow> \<not> distinct (map fst (entries (chainValue b k v))))"
  using assms by (auto simp: entries_chainValue nodes_chainValue)

theorem chainValue_always_appends_witness:
  "Buf 1 \<noteq> EmptyLiteral
   \<and> entries (chainValue (Bucket Marker (Buf 1) 5) (Buf 1) 7) = [(Buf 1, 5), (Buf 1, 7)]
   \<and> nodes (chainValue (Bucket Marker (Buf 1) 5) (Buf 1) 7) = 3"
  using chainValue_always_appends [of "Buf 1" "Bucket Marker (Buf 1) 5" 7]
  by simp

text \<open>
  C3. The search walks the occupied entries in chain order and stops at the first match,
  but it matches addresses, not characters: buffer 3 holds the same string as buffer 1,
  which is in the table, and the search for it returns the null pointer.
\<close>

theorem equal_string_in_other_buffer_not_found:
  "cstring exampleMem (Buf 3) = cstring exampleMem (Buf 1)
   \<and> addToTable exampleMem (constructHashTable 3) (Buf 1) 5 = Inr oneKey
   \<and> searchTable exampleMem oneKey (Buf 1) = Inr (Some (Bucket Marker (Buf 1) 5))
   \<and> searchTable exampleMem oneKey (Buf 3) = Inr None"
  by (simp add: addToTable_def searchTable_def constructHashTable_def exampleMem_def hash_def
        oneKey_def cstring_def numeral_3_eq_3)

section \<open>Printing\<close>

text \<open>
  C4, as the specification states it, fails: the key object 1 is inserted before the key
  object 3 into the same chain, and is printed after it.
\<close>

theorem printed_newest_first:
  "addAll exampleMem (constructHashTable 3) [(Buf 1, 5), (Buf 3, 8)] = Inr twoInOneChain
   \<and> printTable twoInOneChain =
        Inr [PrintIndex 0, PrintIndex 1, PrintPair (Buf 3) 8, PrintPair (Buf 1) 5,
             PrintIndex 2, PrintNewline]"
  by (simp add: addToTable_def printTable_def constructHashTable_def exampleMem_def hash_def
        twoInOneChain_def numeral_3_eq_3 upt_rec)

lemma printBucket_chainValue:
  "k \<noteq> EmptyLiteral \<Longrightarrow> printBucket (chainValue b k v) = PrintPair k v # printBucket b"
  by (simp add: printBucket_entries entries_chainValue)

text \<open>
  C4, amended. \<^verbatim>\<open>printTable\<close> prints the slots in ascending order of their index, from 0
  to \<open>numBuckets - 1\<close>, and within each slot the occupied entries in reverse chain order:
  the entry inserted last is printed first.
\<close>

theorem printTable_order:
  assumes "tableOk table"
  shows "printTable table =
           Inr (concat (map (\<lambda>i. PrintIndex i
                                # map (\<lambda>(k, v). PrintPair k v) (rev (entries (buckets table ! i))))
                            [0 ..< nat (sint (numBuckets table))])
                @ [PrintNewline])
     \<and> (k \<noteq> EmptyLiteral \<longrightarrow> printBucket (chainValue b k v) = PrintPair k v # printBucket b)"
proof (intro conjI impI)
  show "printTable table =
           Inr (concat (map (\<lambda>i. PrintIndex i
                                # map (\<lambda>(k, v). PrintPair k v) (rev (entries (buckets table ! i))))
                            [0 ..< nat (sint (numBuckets table))])
                @ [PrintNewline])"
    using assms by (simp add: printTable_def tableOk_def printBucket_entries)
  show "printBucket (chainValue b k v) = PrintPair k v # printBucket b" if "k \<noteq> EmptyLiteral"
    using that by (rule printBucket_chainValue)
qed

theorem printTable_order_witness:
  "tableOk twoInOneChain
   \<and> printTable twoInOneChain =
        Inr [PrintIndex 0, PrintIndex 1, PrintPair (Buf 3) 8, PrintPair (Buf 1) 5,
             PrintIndex 2, PrintNewline]
   \<and> printBucket (chainValue (Bucket Marker (Buf 1) 5) (Buf 3) 8)
        = [PrintPair (Buf 3) 8, PrintPair (Buf 1) 5]"
proof -
  have ok: "tableOk twoInOneChain"
    by (simp add: tableOk_def twoInOneChain_def)
  from printTable_order [OF ok, of "Buf 3" "Bucket Marker (Buf 1) 5" 8] ok show ?thesis
    by (simp add: twoInOneChain_def numeral_3_eq_3 upt_rec)
qed

section \<open>Construction\<close>

text \<open>
  C5, as the specification states it, fails: \<^verbatim>\<open>constructHashTable\<close> does not test its
  argument. For the count 0 it returns a table without slots; nothing is signalled to the
  caller, and the first insertion into that table divides by zero.
\<close>

theorem zero_count_not_rejected:
  "constructHashTable 0 = \<lparr>numBuckets = 0, buckets = []\<rparr>
   \<and> addToTable exampleMem (constructHashTable 0) (Buf 1) 5 = Inl DivideByZero"
  by (simp add: constructHashTable_def addToTable_def)

text \<open>
  C5, amended. Construction raises no signal of its own. With a positive bucket count it
  always succeeds and returns a table with that count and as many slots, each an empty
  chain; with the count 0 it returns a table with no slots, on which insertion, lookup and
  removal are undefined (remainder by zero).
\<close>

theorem construct_without_check:
  "(0 < sint n \<longrightarrow>
      tableOk (constructHashTable n)
    \<and> numBuckets (constructHashTable n) = n
    \<and> length (buckets (constructHashTable n)) = nat (sint n)
    \<and> (\<forall>b \<in> set (buckets (constructHashTable n)). b = Marker))
   \<and> numBuckets (constructHashTable 0) = 0
   \<and> buckets (constructHashTable 0) = []
   \<and> addToTable mem (constructHashTable 0) k v = Inl DivideByZero
   \<and> searchTable mem (constructHashTable 0) k = Inl DivideByZero
   \<and> removeFromTable mem (constructHashTable 0) k = Inl DivideByZero"
  by (simp add: constructHashTable_def tableOk_def addToTable_def searchTable_def
        removeFromTable_def)

theorem construct_without_check_witness:
  "0 < sint (3 :: c_int)
   \<and> tableOk (constructHashTable 3)
   \<and> buckets (constructHashTable 3) = [Marker, Marker, Marker]"
proof -
  have pos: "0 < sint (3 :: c_int)" by simp
  from construct_without_check [of 3] pos have "tableOk (constructHashTable 3)"
    by blast
  with pos show ?thesis
    by (simp add: constructHashTable_def numeral_3_eq_3)
qed

section \<open>Removal\<close>

text \<open>
  C6, as the specification states it, fails in its second half: a chain can hold a key
  twice, and then each removal takes out one entry, the oldest. After one removal the
  lookup still finds the key, after the second it does not.
\<close>

theorem second_remove_removes_again:
  "removeFromTable exampleMem sameKeyTwice (Buf 1) = Inr secondLeft
   \<and> removeFromTable exampleMem secondLeft (Buf 1) = Inr (constructHashTable 3)
   \<and> searchTable exampleMem secondLeft (Buf 1) = Inr (Some (Bucket Marker (Buf 1) 7))
   \<and> searchTable exampleMem (constructHashTable 3) (Buf 1) = Inr None"
  by (simp add: removeFromTable_def searchTable_def constructHashTable_def exampleMem_def
        hash_def sameKeyTwice_def secondLeft_def numeral_3_eq_3)

lemma tableKeys_nth:
  "i < length (buckets table) \<Longrightarrow> fst ` set (entries (buckets table ! i)) \<subseteq> tableKeys table"
  by (auto simp: tableKeys_def) (metis fst_conv image_iff nth_mem)

text \<open>
  C6, amended. On a table whose key objects hold pairwise distinct strings: removing a
  key that is in no chain returns the table as it is and calls \<^verbatim>\<open>free\<close> for no node of
  any chain; and when the chain of a key holds at most one entry with that key, removing
  the key a second time changes nothing.
\<close>

theorem remove_absent_and_repeated:
  assumes "tableOk table"
    and "inj_on (cstring mem) (insert k (tableKeys table))"
  shows "(k \<notin> tableKeys table \<longrightarrow>
            removeFromTable mem table k = Inr table
          \<and> (\<forall>b \<in> set (buckets table). reformChainExcluding b k = (b, 0)))
     \<and> (length (filter (\<lambda>e. fst e = k) (entries (buckets table ! bucketIndex mem table k))) \<le> 1
          \<longrightarrow> (\<exists>once. removeFromTable mem table k = Inr once
                    \<and> removeFromTable mem once k = Inr once))"
proof (intro conjI impI)
  let ?i = "bucketIndex mem table k"
  have less: "?i < length (buckets table)"
    by (rule bucketIndex_less [OF assms(1)])
  show "\<forall>b \<in> set (buckets table). reformChainExcluding b k = (b, 0)"
    if "k \<notin> tableKeys table"
    using that by (auto simp: tableKeys_def intro!: reform_absent)
  show "removeFromTable mem table k = Inr table" if "k \<notin> tableKeys table"
  proof -
    from that have "k \<notin> fst ` set (entries (buckets table ! ?i))"
      using tableKeys_nth [OF less] by blast
    then have "reformChainExcluding (buckets table ! ?i) k = (buckets table ! ?i, 0)"
      by (rule reform_absent)
    then show ?thesis
      by (simp add: removeFromTable_tableOk [OF assms(1)])
  qed
  show "\<exists>once. removeFromTable mem table k = Inr once \<and> removeFromTable mem once k = Inr once"
    if single: "length (filter (\<lambda>e. fst e = k) (entries (buckets table ! ?i))) \<le> 1"
  proof -
    let ?c = "fst (reformChainExcluding (buckets table ! ?i) k)"
    let ?t = "table\<lparr>buckets := (buckets table)[?i := ?c]\<rparr>"
    have first: "removeFromTable mem table k = Inr ?t"
      by (rule removeFromTable_tableOk [OF assms(1)])
    have ok: "tableOk ?t"
      by (rule tableOk_update [OF assms(1)])
    have idx: "bucketIndex mem ?t k = ?i"
      by (rule bucketIndex_update)
    from single have "k \<notin> fst ` set (entries ?c)"
      by (rule reform_once)
    then have "reformChainExcluding ?c k = (?c, 0)"
      by (rule reform_absent)
    with less have "removeFromTable mem ?t k = Inr ?t"
      by (simp add: removeFromTable_tableOk [OF ok] idx)
    with first show ?thesis
      by blast
  qed
qed

theorem remove_absent_and_repeated_witness:
  "tableOk oneKey
   \<and> inj_on (cstring exampleMem) (insert (Buf 1) (tableKeys oneKey))
   \<and> inj_on (cstring exampleMem) (insert (Buf 2) (tableKeys oneKey))
   \<and> removeFromTable exampleMem oneKey (Buf 2) = Inr oneKey
   \<and> reformChainExcluding (Bucket Marker (Buf 1) 5) (Buf 2) = (Bucket Marker (Buf 1) 5, 0)
   \<and> (\<exists>once. removeFromTable exampleMem oneKey (Buf 1) = Inr once
         \<and> removeFromTable exampleMem once (Buf 1) = Inr once)"
proof -
  have ok: "tableOk oneKey"
    by (simp add: tableOk_def oneKey_def)
  have keys: "tableKeys oneKey = {Buf 1}"
    by (simp add: tableKeys_def oneKey_def)
  have inj1: "inj_on (cstring exampleMem) (insert (Buf 1) (tableKeys oneKey))"
    by (simp add: keys)
  have inj2: "inj_on (cstring exampleMem) (insert (Buf 2) (tableKeys oneKey))"
    by (auto simp: keys inj_on_def cstring_def exampleMem_def)
  have i: "bucketIndex exampleMem oneKey (Buf 1) = 1"
    by (simp add: bucketIndex_def oneKey_def exampleMem_def hash_def)
  have single: "length (filter (\<lambda>e. fst e = Buf 1)
                  (entries (buckets oneKey ! bucketIndex exampleMem oneKey (Buf 1)))) \<le> 1"
    by (simp only: i) (simp add: oneKey_def)
  have absent: "Buf 2 \<notin> tableKeys oneKey"
    by (simp add: keys)
  from remove_absent_and_repeated [OF ok inj2] absent
  have "removeFromTable exampleMem oneKey (Buf 2) = Inr oneKey"
    and "\<forall>b \<in> set (buckets oneKey). reformChainExcluding b (Buf 2) = (b, 0)"
    by blast+
  moreover from remove_absent_and_repeated [OF ok inj1] single
  have "\<exists>once. removeFromTable exampleMem oneKey (Buf 1) = Inr once
         \<and> removeFromTable exampleMem once (Buf 1) = Inr once"
    by blast
  ultimately show ?thesis
    using ok inj1 inj2 by (simp add: oneKey_def)
qed

section \<open>Shape of the chains\<close>

text \<open>
  C9, as the specification states it, fails for one key: inserting the empty-string
  literal itself stores it in the marker node and allocates a second marker behind it, so
  the chain ends in two nodes whose key is the empty string.
\<close>

theorem empty_literal_key_breaks_shape:
  "addToTable exampleMem (constructHashTable 3) EmptyLiteral 7 =
     Inr \<lparr>numBuckets = 3, buckets = [Marker, Marker, Bucket Marker EmptyLiteral 7]\<rparr>
   \<and> \<not> chainOk (Bucket Marker EmptyLiteral 7)"
  by (simp add: addToTable_def constructHashTable_def exampleMem_def hash_def numeral_3_eq_3)

lemma chainOk_update:
  "\<forall>b \<in> set bs. chainOk b \<Longrightarrow> chainOk c \<Longrightarrow> \<forall>b \<in> set (bs[i := c]). chainOk b"
  using set_update_subset_insert [of bs i c] by auto

text \<open>
  C9, amended. After construction with a positive count every slot holds an empty chain,
  a single marker. On a table whose chains all consist of occupied entries followed by
  exactly one marker, every insertion of a key other than the empty-string literal and
  every removal succeeds and leaves all chains in that shape; and in such a chain the
  marker is reached from the head after as many \<open>chainedBucket\<close> steps as the chain has
  entries.
\<close>

theorem chains_keep_their_shape:
  assumes "tableOk table"
    and "\<forall>b \<in> set (buckets table). chainOk b"
  shows "(0 < sint n \<longrightarrow>
            length (buckets (constructHashTable n)) = nat (sint n)
          \<and> (\<forall>b \<in> set (buckets (constructHashTable n)). b = Marker))
     \<and> (k \<noteq> EmptyLiteral \<longrightarrow>
          (\<exists>added. addToTable mem table k v = Inr added \<and> tableOk added
                  \<and> (\<forall>b \<in> set (buckets added). chainOk b)))
     \<and> (\<exists>removed. removeFromTable mem table k = Inr removed \<and> tableOk removed
                  \<and> (\<forall>b \<in> set (buckets removed). chainOk b))
     \<and> (\<forall>b \<in> set (buckets table). (chainedBucket ^^ length (entries b)) b = Marker)"
proof (intro conjI impI)
  let ?i = "bucketIndex mem table k"
  have here: "chainOk (buckets table ! ?i)"
    using assms(2) bucketIndex_less [OF assms(1), of mem k] by simp
  show "length (buckets (constructHashTable n)) = nat (sint n)"
    by (simp add: constructHashTable_def)
  show "\<forall>b \<in> set (buckets (constructHashTable n)). b = Marker"
    by (simp add: constructHashTable_def)
  show "\<exists>added. addToTable mem table k v = Inr added \<and> tableOk added
                  \<and> (\<forall>b \<in> set (buckets added). chainOk b)"
    if "k \<noteq> EmptyLiteral"
  proof -
    from here that have "chainOk (chainValue (buckets table ! ?i) k v)"
      by (rule chainOk_chainValue)
    with assms(2) have "\<forall>b \<in> set ((buckets table)[?i := chainValue (buckets table ! ?i) k v]).
                          chainOk b"
      by (rule chainOk_update)
    then show ?thesis
      by (simp add: addToTable_tableOk [OF assms(1)] tableOk_update [OF assms(1)])
  qed
  show "\<exists>removed. removeFromTable mem table k = Inr removed \<and> tableOk removed
                  \<and> (\<forall>b \<in> set (buckets removed). chainOk b)"
  proof -
    from here have "chainOk (fst (reformChainExcluding (buckets table ! ?i) k))"
      by (rule chainOk_reform)
    with assms(2) have
      "\<forall>b \<in> set ((buckets table)[?i := fst (reformChainExcluding (buckets table ! ?i) k)]).
         chainOk b"
      by (rule chainOk_update)
    then show ?thesis
      by (simp add: removeFromTable_tableOk [OF assms(1)] tableOk_update [OF assms(1)])
  qed
  show "\<forall>b \<in> set (buckets table). (chainedBucket ^^ length (entries b)) b = Marker"
    using assms(2) by (auto intro: chainOk_marker_reached)
qed

theorem chains_keep_their_shape_witness:
  "tableOk oneKey
   \<and> chainOk (Bucket Marker (Buf 1) 5)
   \<and> (\<exists>added. addToTable exampleMem oneKey (Buf 3) 8 = Inr added \<and> tableOk added
         \<and> chainOk (buckets added ! 1))
   \<and> (chainedBucket ^^ 1) (Bucket Marker (Buf 1) 5) = Marker"
proof -
  have ok: "tableOk oneKey"
    by (simp add: tableOk_def oneKey_def)
  have shape: "\<forall>b \<in> set (buckets oneKey). chainOk b"
    by (simp add: oneKey_def)
  have ne: "Buf 3 \<noteq> EmptyLiteral" by simp
  from chains_keep_their_shape [OF ok shape, of 3 "Buf 3" exampleMem 8] ne
  obtain added where run: "addToTable exampleMem oneKey (Buf 3) 8 = Inr added"
    and ok': "tableOk added" and shape': "\<forall>b \<in> set (buckets added). chainOk b"
    by blast
  from run addToTable_tableOk [OF ok, of exampleMem "Buf 3" 8]
  have "length (buckets added) = length (buckets oneKey)"
    by auto
  then have "length (buckets added) = 3"
    by (simp add: oneKey_def)
  with shape' have "chainOk (buckets added ! 1)"
    by simp
  with run ok' ok show ?thesis
    by (auto simp: oneKey_def)
qed

end
